theory Spec2Isabelle
  imports Main
begin

section \<open>Strings and the built-in string operations the parser uses\<close>

text \<open>
  A JavaScript string is modelled as a \<^typ>\<open>string\<close>, a list of characters of the range
  of \<^typ>\<open>char\<close> (the code points below 256). The code looks at characters only through
  equality with the delimiter, the quote character and the line feed, through the
  whitespace class of \<^verbatim>\<open>String.prototype.trim\<close> and through the digit class of
  \<^verbatim>\<open>\d\<close>.

  \<^verbatim>\<open>trim\<close> removes the WhiteSpace and LineTerminator characters of ECMAScript from both
  ends; in the range of \<^typ>\<open>char\<close> these are TAB, LF, VT, FF, CR, SPACE and NBSP.
\<close>

definition isWhiteSpace :: "char \<Rightarrow> bool" where
  "isWhiteSpace c \<longleftrightarrow>
     c \<in> set [CHR 0x09, CHR 0x0A, CHR 0x0B, CHR 0x0C, CHR 0x0D, CHR 0x20, CHR 0xA0]"

definition trimStart :: "string \<Rightarrow> string" where
  "trimStart s = dropWhile isWhiteSpace s"

definition trimEnd :: "string \<Rightarrow> string" where
  "trimEnd s = rev (dropWhile isWhiteSpace (rev s))"

definition trim :: "string \<Rightarrow> string" where
  "trim s = trimEnd (trimStart s)"

text \<open>
  \<^verbatim>\<open>text.split(sep)\<close> for a one-character separator: the pieces between the
  occurrences of the separator, in order. A text without the separator, the empty text
  included, is one piece.
\<close>

fun split :: "char \<Rightarrow> string \<Rightarrow> string list" where
  "split sep [] = [[]]"
| "split sep (c # cs) =
     (if c = sep then [] # split sep cs
      else (case split sep cs of
              [] \<Rightarrow> [[c]]
            | piece # pieces \<Rightarrow> (c # piece) # pieces))"

text \<open>The decimal digits of a non-negative integer, as a template literal prints it.\<close>

definition digit :: "nat \<Rightarrow> char" where
  "digit k = ''0123456789'' ! k"

function showNat :: "nat \<Rightarrow> string" where
  "showNat n = (if n < 10 then [digit n] else showNat (n div 10) @ [digit (n mod 10)])"
  by pat_completeness auto
termination
  by (relation "measure id") auto

declare showNat.simps [simp del]

section \<open>The CSV parser (csvParser)\<close>

record CSVParseOptions =
  skipEmptyLines :: bool
  skipHeaderLines :: nat
  delimiter :: char
  quoteChar :: char
  trimFields :: bool

text \<open>
  The defaults of the destructuring at the head of \<^verbatim>\<open>parseCSV\<close>. The option
  \<^verbatim>\<open>skipHeaderLines\<close> is a count of lines (a non-negative integer), the delimiter and
  the quote character are single characters.
\<close>

definition defaultOptions :: CSVParseOptions where
  "defaultOptions =
     \<lparr>skipEmptyLines = True, skipHeaderLines = 0, delimiter = CHR '','',
      quoteChar = CHR 0x22, trimFields = True\<rparr>"

record CSVParseResult =
  headers :: "string list"
  rows :: "string list list"
  errors :: "string list"

subsection \<open>parseCSVLine\<close>

text \<open>
  \<^verbatim>\<open>fields.push(trimFields ? currentField.trim() : currentField)\<close>: the value that is
  pushed when a field is closed.
\<close>

definition closeField :: "bool \<Rightarrow> string \<Rightarrow> string" where
  "closeField trimF currentField = (if trimF then trim currentField else currentField)"

text \<open>
  The \<^verbatim>\<open>while (i < line.length)\<close> loop of \<^verbatim>\<open>parseCSVLine\<close>. The last argument is
  the part of the line from index \<^verbatim>\<open>i\<close> on, so \<^verbatim>\<open>char\<close> is its head and
  \<^verbatim>\<open>nextChar\<close> the head of its tail (\<^verbatim>\<open>undefined\<close>, which equals no quote character,
  when there is none). The state of the loop is \<^verbatim>\<open>fields\<close>, \<^verbatim>\<open>currentField\<close> and
  \<^verbatim>\<open>inQuotes\<close>; after the loop the last field is pushed.
\<close>

fun scanLine :: "char \<Rightarrow> char \<Rightarrow> bool \<Rightarrow> string list \<Rightarrow> string \<Rightarrow> bool \<Rightarrow> string \<Rightarrow> string list" where
  "scanLine d q trimF fs currentField inQuotes [] =
     fs @ [closeField trimF currentField]"
| "scanLine d q trimF fs currentField inQuotes (c # rest) =
     (if c = q then
        (case rest of
           nextChar # rest' \<Rightarrow>
             if inQuotes \<and> nextChar = q
             then scanLine d q trimF fs (currentField @ [q]) inQuotes rest'
             else scanLine d q trimF fs currentField (\<not> inQuotes) rest
         | [] \<Rightarrow> scanLine d q trimF fs currentField (\<not> inQuotes) rest)
      else if c = d \<and> \<not> inQuotes then
        scanLine d q trimF (fs @ [closeField trimF currentField]) [] inQuotes rest
      else scanLine d q trimF fs (currentField @ [c]) inQuotes rest)"

declare scanLine.simps(2) [simp del]

definition parseCSVLine :: "string \<Rightarrow> char \<Rightarrow> char \<Rightarrow> bool \<Rightarrow> string list" where
  "parseCSVLine line d q trimF = scanLine d q trimF [] [] False line"

subsection \<open>parseCSV\<close>

text \<open>
  The column count repair of a row: \<^verbatim>\<open>while (row.length < headers.length) row.push('')\<close>,
  then \<^verbatim>\<open>if (row.length > headers.length) row.splice(headers.length)\<close>.
\<close>

definition padRow :: "nat \<Rightarrow> string list \<Rightarrow> string list" where
  "padRow n row = row @ replicate (n - length row) []"

definition spliceRow :: "nat \<Rightarrow> string list \<Rightarrow> string list" where
  "spliceRow n row = (if length row > n then take n row else row)"

definition columnError :: "nat \<Rightarrow> nat \<Rightarrow> nat \<Rightarrow> string" where
  "columnError lineNo expected got =
     ''Row '' @ showNat lineNo @ '': Expected '' @ showNat expected @ '' columns, got '' @ showNat got"

text \<open>
  The \<^verbatim>\<open>for (let i = 1; i < dataLines.length; i++)\<close> loop. The list argument is
  \<^verbatim>\<open>dataLines\<close> from index \<^verbatim>\<open>i\<close> on; the pair is \<^verbatim>\<open>rows\<close> and \<^verbatim>\<open>errors\<close>.
  \<^verbatim>\<open>parseCSVLine\<close> has no throw statement and uses only total string operations, so
  the \<^verbatim>\<open>catch\<close> branch of the loop body is never entered and has no equation here.
\<close>

fun parseRows :: "CSVParseOptions \<Rightarrow> string list \<Rightarrow> nat \<Rightarrow> string list
    \<Rightarrow> string list list \<times> string list \<Rightarrow> string list list \<times> string list" where
  "parseRows opts hdrs i [] (rs, errs) = (rs, errs)"
| "parseRows opts hdrs i (raw # rest) (rs, errs) =
     (let line = trim raw in
      if skipEmptyLines opts \<and> line = [] then parseRows opts hdrs (i + 1) rest (rs, errs)
      else
        let row = parseCSVLine line (delimiter opts) (quoteChar opts) (trimFields opts) in
        if length row \<noteq> length hdrs then
          parseRows opts hdrs (i + 1) rest
            (rs @ [spliceRow (length hdrs) (padRow (length hdrs) row)],
             errs @ [columnError (i + skipHeaderLines opts + 1) (length hdrs) (length row)])
        else parseRows opts hdrs (i + 1) rest (rs @ [row], errs))"

definition parseCSV :: "string \<Rightarrow> CSVParseOptions \<Rightarrow> CSVParseResult" where
  "parseCSV csvText opts =
     (let lines = split CHR 0x0A csvText;
          dataLines = drop (skipHeaderLines opts) lines
      in if length dataLines = 0 then
           \<lparr>headers = [], rows = [], errors = [''No data lines found in CSV'']\<rparr>
         else
           let firstLine = dataLines ! 0;
               hdrs = parseCSVLine firstLine (delimiter opts) (quoteChar opts) (trimFields opts);
               (rs, errs) = parseRows opts hdrs 1 (drop 1 dataLines) ([], [])
           in \<lparr>headers = hdrs, rows = rs, errors = errs\<rparr>)"

subsection \<open>formatPhoneNumber\<close>

text \<open>
  \<^verbatim>\<open>\d\<close> in a regular expression without the unicode flag is one of the ten ASCII
  digits; \<^verbatim>\<open>phone.replace(/[^\d]/g, '')\<close> keeps exactly those. The argument is
  \<^verbatim>\<open>string | undefined\<close>, and \<^verbatim>\<open>!phone\<close> holds for \<^verbatim>\<open>undefined\<close> and for the
  empty string.
\<close>

definition isDigit :: "char \<Rightarrow> bool" where
  "isDigit c \<longleftrightarrow> c \<in> set ''0123456789''"

definition startsWith :: "string \<Rightarrow> string \<Rightarrow> bool" where
  "startsWith s prefix \<longleftrightarrow> take (length prefix) s = prefix"

definition formatPhoneNumber :: "string option \<Rightarrow> string" where
  "formatPhoneNumber phone =
     (case phone of
        None \<Rightarrow> []
      | Some p \<Rightarrow>
          if p = [] then []
          else
            let cleaned = filter isDigit p in
            if length cleaned = 10 then ''+91 '' @ cleaned
            else if length cleaned = 12 \<and> startsWith cleaned ''91'' then ''+'' @ cleaned
            else p)"

section \<open>The data loading manager (dataLoadingManager)\<close>

record DataLoadingState =
  isLoading :: bool
  isLoaded :: bool
  error :: "string option"
  lastUpdated :: "nat option"

text \<open>
  \<^verbatim>\<open>Partial<DataLoadingState>\<close>: each field is present or absent. A \<^verbatim>\<open>Date\<close> is
  its time value, a natural number; \<^verbatim>\<open>null\<close> is \<^term>\<open>None\<close>.
\<close>

record PartialState =
  isLoading' :: "bool option"
  isLoaded' :: "bool option"
  error' :: "string option option"
  lastUpdated' :: "nat option option"

text \<open>The object spread \<^verbatim>\<open>{ ...currentState, ...state }\<close>.\<close>

definition spread :: "DataLoadingState \<Rightarrow> PartialState \<Rightarrow> DataLoadingState" where
  "spread currentState state =
     \<lparr>isLoading = (case isLoading' state of Some b \<Rightarrow> b | None \<Rightarrow> isLoading currentState),
      isLoaded = (case isLoaded' state of Some b \<Rightarrow> b | None \<Rightarrow> isLoaded currentState),
      error = (case error' state of Some e \<Rightarrow> e | None \<Rightarrow> error currentState),
      lastUpdated = (case lastUpdated' state of Some d \<Rightarrow> d | None \<Rightarrow> lastUpdated currentState)\<rparr>"

text \<open>
  What the manager does to the outside: a listener called with a state, a request sent,
  a delay waited for (in milliseconds). A listener is known by a number; the listeners of
  a source are a \<^verbatim>\<open>Set\<close>, which keeps insertion order and no duplicates. Listeners are
  observers: a call of one returns. The console output is left out.
\<close>

datatype effect =
  Notified string nat DataLoadingState
| Fetched string
| Waited nat

text \<open>
  The three private maps of the class, and the effects performed so far. The cache holds
  values of the type \<^verbatim>\<open>T\<close> that the caller's parser produces.
\<close>

record 'a DataLoadingManager =
  loadingStates :: "string \<rightharpoonup> DataLoadingState"
  dataCache :: "string \<rightharpoonup> 'a"
  listeners :: "string \<rightharpoonup> nat list"
  effects :: "effect list"


definition getLoadingState :: "'a DataLoadingManager \<Rightarrow> string \<Rightarrow> DataLoadingState" where
  "getLoadingState m dataSource =
     (case loadingStates m dataSource of
        Some s \<Rightarrow> s
      | None \<Rightarrow> \<lparr>isLoading = False, isLoaded = False, error = None, lastUpdated = None\<rparr>)"

definition setLoadingState :: "'a DataLoadingManager \<Rightarrow> string \<Rightarrow> PartialState \<Rightarrow> 'a DataLoadingManager" where
  "setLoadingState m dataSource state =
     (let currentState = getLoadingState m dataSource;
          newState = spread currentState state;
          m' = m\<lparr>loadingStates := (loadingStates m)(dataSource \<mapsto> newState)\<rparr>
      in case listeners m' dataSource of
           Some ls \<Rightarrow> m'\<lparr>effects := effects m' @ map (\<lambda>l. Notified dataSource l newState) ls\<rparr>
         | None \<Rightarrow> m')"

definition subscribe :: "'a DataLoadingManager \<Rightarrow> string \<Rightarrow> nat \<Rightarrow> 'a DataLoadingManager" where
  "subscribe m dataSource listener =
     (let ls = (case listeners m dataSource of Some ls \<Rightarrow> ls | None \<Rightarrow> [])
      in m\<lparr>listeners := (listeners m)(dataSource \<mapsto>
             (if listener \<in> set ls then ls else ls @ [listener]))\<rparr>)"

subsection \<open>loadCSVData\<close>

text \<open>
  A value that is thrown or that rejects a promise: an \<^verbatim>\<open>Error\<close> with its message, or
  anything else (\<^verbatim>\<open>error instanceof Error\<close> tells them apart).
\<close>

datatype thrown = ErrorObject string | OtherValue

text \<open>
  What one \<^verbatim>\<open>fetch\<close> can come to: the promise rejects (a network failure, or the abort
  that the timeout of the attempt triggers), or it resolves to a response, whose
  \<^verbatim>\<open>text()\<close> in turn rejects or gives the body.
\<close>

record Response =
  ok :: bool
  status :: nat
  statusText :: string
  body :: "thrown + string"

datatype fetchOutcome = Rejected thrown | Resolved Response

record LoadOptions =
  optSkipHeaderLines :: "nat option"
  optCacheKey :: "string option"
  optRetries :: "nat option"
  optTimeout :: "nat option"

text \<open>
  \<^verbatim>\<open>data\<close> of a result is a value of \<^verbatim>\<open>T\<close> (from the parser or from the cache), or the
  empty object literal \<^verbatim>\<open>{} as T\<close> of the failure returns.
\<close>

datatype 'a payload = EmptyObject | Data 'a

record 'a DataLoadingResult =
  data :: "'a payload"
  resultErrors :: "string list"
  warnings :: "string list"

text \<open>
  The statements of the \<^verbatim>\<open>try\<close> block up to the body text: the request, the
  \<^verbatim>\<open>response.ok\<close> check, \<^verbatim>\<open>response.text()\<close> and the check for an empty file.
\<close>

definition fetchText :: "fetchOutcome \<Rightarrow> thrown + string" where
  "fetchText outcome =
     (case outcome of
        Rejected e \<Rightarrow> Inl e
      | Resolved response \<Rightarrow>
          if \<not> ok response then
            Inl (ErrorObject (''HTTP '' @ showNat (status response) @ '': '' @ statusText response))
          else
            (case body response of
               Inl e \<Rightarrow> Inl e
             | Inr csvText \<Rightarrow>
                 if trim csvText = [] then Inl (ErrorObject ''Empty CSV file received'')
                 else Inr csvText))"

text \<open>The options object that \<^verbatim>\<open>loadCSVData\<close> passes to \<^verbatim>\<open>parseCSV\<close>.\<close>

definition loaderParseOptions :: "nat \<Rightarrow> CSVParseOptions" where
  "loaderParseOptions skip = defaultOptions\<lparr>skipHeaderLines := skip, skipEmptyLines := True, trimFields := True\<rparr>"

text \<open>
  The whole \<^verbatim>\<open>try\<close> block but its last statements (which store the data and cannot
  throw): the arrays \<^verbatim>\<open>errors\<close> and \<^verbatim>\<open>warnings\<close> as it leaves them, and the data
  of the caller's parser or what was thrown. The parser is the caller's code and may throw.
  The arrays are declared before the loop, so what one attempt pushes is still there in
  the next.
\<close>

definition tryAttempt :: "(CSVParseResult \<Rightarrow> thrown + 'a) \<Rightarrow> nat \<Rightarrow> fetchOutcome
    \<Rightarrow> string list \<times> string list \<Rightarrow> (string list \<times> string list) \<times> (thrown + 'a)" where
  "tryAttempt parser skip outcome acc =
     (case fetchText outcome of
        Inl e \<Rightarrow> (acc, Inl e)
      | Inr csvText \<Rightarrow>
          let parseResult = parseCSV csvText (loaderParseOptions skip);
              acc' = (if length (errors parseResult) > 0
                      then (fst acc @ errors parseResult,
                            snd acc @ [''CSV parsing completed with '' @ showNat (length (errors parseResult)) @ '' errors''])
                      else acc)
          in (acc', parser parseResult))"

definition errorMessageOf :: "thrown \<Rightarrow> string" where
  "errorMessageOf e = (case e of ErrorObject msg \<Rightarrow> msg | OtherValue \<Rightarrow> ''Unknown error'')"

text \<open>
  The loop \<^verbatim>\<open>for (let attempt = 1; attempt <= retries; attempt++)\<close> and the return
  after it. \<^verbatim>\<open>net k\<close> is what the request of attempt \<^verbatim>\<open>k\<close> comes to and \<^verbatim>\<open>now\<close>
  the time that \<^verbatim>\<open>new Date()\<close> reads. One call runs from start to end here: what
  other tasks do to the manager while the call waits is not part of the model.
\<close>

function attempts :: "string \<Rightarrow> string \<Rightarrow> (CSVParseResult \<Rightarrow> thrown + 'a) \<Rightarrow> nat \<Rightarrow> string \<Rightarrow> nat
    \<Rightarrow> (nat \<Rightarrow> fetchOutcome) \<Rightarrow> nat \<Rightarrow> nat \<Rightarrow> string list \<times> string list \<Rightarrow> 'a DataLoadingManager
    \<Rightarrow> 'a DataLoadingResult \<times> 'a DataLoadingManager" where
  "attempts dataSource url parser skip cacheKey retries net now attempt acc m =
     (if attempt \<le> retries then
        let m1 = m\<lparr>effects := effects m @ [Fetched url]\<rparr> in
        (case tryAttempt parser skip (net attempt) acc of
           (acc', Inr d) \<Rightarrow>
             let m2 = m1\<lparr>dataCache := (dataCache m1)(cacheKey \<mapsto> d)\<rparr>;
                 m3 = setLoadingState m2 dataSource
                        \<lparr>isLoading' = Some False, isLoaded' = Some True, error' = Some None,
                         lastUpdated' = Some (Some now)\<rparr>
             in (\<lparr>data = Data d, resultErrors = fst acc', warnings = snd acc'\<rparr>, m3)
         | (acc', Inl e) \<Rightarrow>
             let errorMessage = errorMessageOf e in
             if attempt = retries then
               (\<lparr>data = EmptyObject,
                 resultErrors = [''Failed to load '' @ dataSource @ '' after '' @ showNat retries
                                   @ '' attempts: '' @ errorMessage],
                 warnings = []\<rparr>,
                setLoadingState m1 dataSource
                  \<lparr>isLoading' = Some False, isLoaded' = Some False, error' = Some (Some errorMessage),
                   lastUpdated' = Some None\<rparr>)
             else
               attempts dataSource url parser skip cacheKey retries net now (attempt + 1) acc'
                 (m1\<lparr>effects := effects m1 @ [Waited (1000 * attempt)]\<rparr>))
      else
        (\<lparr>data = EmptyObject, resultErrors = [''Failed to load '' @ dataSource], warnings = []\<rparr>, m))"
  by pat_completeness auto
termination
  by (relation "measure (\<lambda>(dataSource, url, parser, skip, cacheKey, retries, net, now, attempt, acc, m).
        Suc retries - attempt)") auto

declare attempts.simps [simp del]

text \<open>The destructuring of the options with its defaults.\<close>

definition skipOf :: "LoadOptions \<Rightarrow> nat" where
  "skipOf options = (case optSkipHeaderLines options of Some n \<Rightarrow> n | None \<Rightarrow> 0)"

definition cacheKeyOf :: "LoadOptions \<Rightarrow> string \<Rightarrow> string" where
  "cacheKeyOf options dataSource = (case optCacheKey options of Some k \<Rightarrow> k | None \<Rightarrow> dataSource)"

definition retriesOf :: "LoadOptions \<Rightarrow> nat" where
  "retriesOf options = (case optRetries options of Some n \<Rightarrow> n | None \<Rightarrow> 3)"

definition loadCSVData :: "'a DataLoadingManager \<Rightarrow> string \<Rightarrow> string \<Rightarrow> (CSVParseResult \<Rightarrow> thrown + 'a)
    \<Rightarrow> LoadOptions \<Rightarrow> (nat \<Rightarrow> fetchOutcome) \<Rightarrow> nat \<Rightarrow> 'a DataLoadingResult \<times> 'a DataLoadingManager" where
  "loadCSVData m dataSource url parser options net now =
     (let skip = skipOf options;
          cacheKey = cacheKeyOf options dataSource;
          retries = retriesOf options
      in case dataCache m cacheKey of
           Some cachedData \<Rightarrow>
             (\<lparr>data = Data cachedData, resultErrors = [], warnings = [''Data loaded from cache'']\<rparr>,
              setLoadingState m dataSource
                \<lparr>isLoading' = Some False, isLoaded' = Some True, error' = Some None,
                 lastUpdated' = Some (Some now)\<rparr>)
         | None \<Rightarrow>
             attempts dataSource url parser skip cacheKey retries net now 1 ([], [])
               (setLoadingState m dataSource
                  \<lparr>isLoading' = Some True, isLoaded' = Some False, error' = Some None,
                   lastUpdated' = Some None\<rparr>))"

section \<open>Notions of the specification\<close>

text \<open>
  The definitions of this section are not code of the repository: they say, in the words
  of the specification, what the theorems below compare the code with.
\<close>

subsection \<open>Rows of a document\<close>

text \<open>
  The lines of a text with their line numbers in the text, counted from 1; the row the
  specification asks for (the tokenized line, padded with empty strings or truncated to
  \<open>n\<close> fields); the tokenization of a data line; and the data lines that give a row:
  those after the skipped lines and the header line, but for the blank ones when
  \<^verbatim>\<open>skipEmptyLines\<close> is set.
\<close>

definition numberedLines :: "string \<Rightarrow> (nat \<times> string) list" where
  "numberedLines csvText = enumerate 1 (split CHR 0x0A csvText)"

definition fitRow :: "nat \<Rightarrow> string list \<Rightarrow> string list" where
  "fitRow n row = take n row @ replicate (n - length row) []"

definition tokenizedRow :: "CSVParseOptions \<Rightarrow> string \<Rightarrow> string list" where
  "tokenizedRow opts raw = parseCSVLine (trim raw) (delimiter opts) (quoteChar opts) (trimFields opts)"

definition keptLine :: "CSVParseOptions \<Rightarrow> nat \<times> string \<Rightarrow> bool" where
  "keptLine opts nl \<longleftrightarrow> \<not> (skipEmptyLines opts \<and> trim (snd nl) = [])"

definition keptRows :: "CSVParseOptions \<Rightarrow> string \<Rightarrow> (nat \<times> string) list" where
  "keptRows opts csvText =
     filter (keptLine opts) (drop (Suc (skipHeaderLines opts)) (numberedLines csvText))"

definition noDataResult :: CSVParseResult where
  "noDataResult = \<lparr>headers = [], rows = [], errors = [''No data lines found in CSV'']\<rparr>"

subsection \<open>Building a line from quoted fields\<close>

text \<open>
  The line of the round-trip property: every field wrapped in the quote character, with
  each quote character inside it doubled, and the quoted fields joined with the delimiter
  (\<^verbatim>\<open>fields.map(f => q + f.replaceAll(q, q + q) + q).join(d)\<close>).
\<close>

definition escapeQuotes :: "char \<Rightarrow> string \<Rightarrow> string" where
  "escapeQuotes q field = concat (map (\<lambda>c. if c = q then [q, q] else [c]) field)"

definition quoteField :: "char \<Rightarrow> string \<Rightarrow> string" where
  "quoteField q field = q # escapeQuotes q field @ [q]"

fun joinWith :: "char \<Rightarrow> string list \<Rightarrow> string" where
  "joinWith d [] = []"
| "joinWith d [x] = x"
| "joinWith d (x # y # ys) = x @ d # joinWith d (y # ys)"

definition buildLine :: "char \<Rightarrow> char \<Rightarrow> string list \<Rightarrow> string" where
  "buildLine d q vals = joinWith d (map (quoteField q) vals)"

subsection \<open>Quoted and unquoted positions of a line\<close>

text \<open>
  The flag \<^verbatim>\<open>inQuotes\<close> after a text has been read, by the two quote rules of the
  tokenizer: a quote character read in quotes and followed by another one is an escaped
  quote (two characters are read, the flag stays), any other quote character toggles the
  flag, and no other character changes it. A delimiter occurrence of a line is unquoted
  when the flag is off after the text before it.
\<close>

fun quoteState :: "char \<Rightarrow> bool \<Rightarrow> string \<Rightarrow> bool" where
  "quoteState q inQuotes [] = inQuotes"
| "quoteState q inQuotes (c # rest) =
     (if c = q then
        (case rest of
           nextChar # rest' \<Rightarrow>
             if inQuotes \<and> nextChar = q then quoteState q inQuotes rest'
             else quoteState q (\<not> inQuotes) rest
         | [] \<Rightarrow> \<not> inQuotes)
      else quoteState q inQuotes rest)"

declare quoteState.simps(2) [simp del]


definition hasLeadingSpace :: "string \<Rightarrow> bool" where
  "hasLeadingSpace s \<longleftrightarrow> trimStart s \<noteq> s"

definition hasTrailingSpace :: "string \<Rightarrow> bool" where
  "hasTrailingSpace s \<longleftrightarrow> trimEnd s \<noteq> s"

definition endsWith :: "string \<Rightarrow> string \<Rightarrow> bool" where
  "endsWith s suffix \<longleftrightarrow> startsWith (rev s) (rev suffix)"

subsection \<open>Failing attempts of the loader\<close>



section \<open>The line tokenizer\<close>

subsection \<open>The steps of the scan\<close>

lemma scanLine_pair:
  "inQ \<Longrightarrow> scanLine d q t fs cur inQ (q # q # rest) = scanLine d q t fs (cur @ [q]) inQ rest"
  by (subst scanLine.simps(2)) simp

lemma scanLine_toggle:
  "\<not> (inQ \<and> rest \<noteq> [] \<and> hd rest = q) \<Longrightarrow>
   scanLine d q t fs cur inQ (q # rest) = scanLine d q t fs cur (\<not> inQ) rest"
  by (subst scanLine.simps(2)) (auto split: list.splits)

lemma scanLine_delim:
  "d \<noteq> q \<Longrightarrow> \<not> inQ \<Longrightarrow>
   scanLine d q t fs cur inQ (d # rest) = scanLine d q t (fs @ [closeField t cur]) [] inQ rest"
  by (subst scanLine.simps(2)) simp

lemma scanLine_char:
  "c \<noteq> q \<Longrightarrow> \<not> (c = d \<and> \<not> inQ) \<Longrightarrow>
   scanLine d q t fs cur inQ (c # rest) = scanLine d q t fs (cur @ [c]) inQ rest"
  by (subst scanLine.simps(2)) auto

lemma scan_cases:
  obtains (pair) rest' where "c = q" "inQ" "rest = q # rest'"
  | (toggle) "c = q" "\<not> (inQ \<and> rest \<noteq> [] \<and> hd rest = q)"
  | (delim) "c \<noteq> q" "c = d" "\<not> inQ"
  | (char) "c \<noteq> q" "\<not> (c = d \<and> \<not> inQ)"
  by (cases rest) auto

lemma scanLine_prefix:
  "scanLine d q t (pre @ fs) cur inQ xs = pre @ scanLine d q t fs cur inQ xs"
proof (induction d q t fs cur inQ xs rule: scanLine.induct)
  case (1 d q trimF fs currentField inQuotes)
  then show ?case by simp
next
  case (2 d q trimF fs currentField inQuotes c rest)
  show ?case
  proof (cases rule: scan_cases [where c = c and q = q and inQ = inQuotes and rest = rest and d = d])
    case (pair rest')
    then show ?thesis using "2.IH"(2) [of q rest'] by (simp add: scanLine_pair)
  next
    case toggle
    then show ?thesis using "2.IH"(1,3) by (cases rest) (simp_all add: scanLine_toggle)
  next
    case delim
    then show ?thesis using "2.IH"(4) by (simp add: scanLine_delim)
  next
    case char
    then show ?thesis using "2.IH"(5) by (simp add: scanLine_char)
  qed
qed

lemma closeField_Nil [simp]: "closeField t [] = []"
  by (simp add: closeField_def trim_def trimStart_def trimEnd_def)

lemma scanLine_trim:
  "scanLine d q True (map trim fs) cur inQ xs = map trim (scanLine d q False fs cur inQ xs)"
proof (induction d q False fs cur inQ xs rule: scanLine.induct)
  case (1 d q fs currentField inQuotes)
  then show ?case by (simp add: closeField_def)
next
  case (2 d q fs currentField inQuotes c rest)
  show ?case
  proof (cases rule: scan_cases [where c = c and q = q and inQ = inQuotes and rest = rest and d = d])
    case (pair rest')
    then show ?thesis using "2.hyps"(2) [of q rest'] by (simp add: scanLine_pair)
  next
    case toggle
    then show ?thesis using "2.hyps"(1,3) by (cases rest) (simp_all add: scanLine_toggle)
  next
    case delim
    then show ?thesis using "2.hyps"(4) by (simp add: scanLine_delim closeField_def)
  next
    case char
    then show ?thesis using "2.hyps"(5) by (simp add: scanLine_char)
  qed
qed

lemma scanLine_inside:
  "q \<notin> set inner \<Longrightarrow>
   scanLine d q t fs cur True (inner @ rest) = scanLine d q t fs (cur @ inner) True rest"
proof (induction inner arbitrary: cur)
  case Nil
  then show ?case by simp
next
  case (Cons c inner)
  then have "c \<noteq> q" by auto
  then show ?case using Cons by (simp add: scanLine_char)
qed

lemma parseCSVLine_quoted:
  "q \<notin> set inner \<Longrightarrow> parseCSVLine (q # inner @ [q]) d q t = [closeField t inner]"
  using scanLine_inside [of q inner d t "[]" "[]" "[q]"]
  by (simp add: parseCSVLine_def scanLine_toggle)


lemma scanLine_escaped:
  "rest = [] \<or> hd rest \<noteq> q \<Longrightarrow>
   scanLine d q t fs cur True (escapeQuotes q field @ q # rest) = scanLine d q t fs (cur @ field) False rest"
proof (induction field arbitrary: cur)
  case Nil
  then show ?case by (auto simp: escapeQuotes_def scanLine_toggle)
next
  case (Cons c field)
  have e: "escapeQuotes q (x # field) = (if x = q then [q, q] else [x]) @ escapeQuotes q field" for x
    by (simp add: escapeQuotes_def)
  show ?case
  proof (cases "c = q")
    case True
    then show ?thesis using Cons.IH [OF Cons.prems, of "cur @ [q]"] by (simp add: e scanLine_pair)
  next
    case False
    then show ?thesis using Cons.IH [OF Cons.prems, of "cur @ [c]"] by (simp add: e scanLine_char)
  qed
qed

lemma buildLine_Cons:
  "buildLine d q (f # vals) =
     q # escapeQuotes q f @ q # (if vals = [] then [] else d # buildLine d q vals)"
  by (cases vals) (simp_all add: buildLine_def quoteField_def)

lemma scanLine_buildLine:
  "d \<noteq> q \<Longrightarrow> vals \<noteq> [] \<Longrightarrow>
   scanLine d q t fs [] False (buildLine d q vals) = fs @ map (closeField t) vals"
proof (induction vals arbitrary: fs)
  case Nil
  then show ?case by simp
next
  case (Cons f vals)
  let ?rest = "if vals = [] then [] else d # buildLine d q vals"
  have r: "?rest = [] \<or> hd ?rest \<noteq> q" using \<open>d \<noteq> q\<close> by simp
  have "scanLine d q t fs [] False (buildLine d q (f # vals))
      = scanLine d q t fs [] True (escapeQuotes q f @ q # ?rest)"
    unfolding buildLine_Cons by (simp add: scanLine_toggle)
  also have "\<dots> = scanLine d q t fs f False ?rest"
    using scanLine_escaped [OF r, of d t fs "[]" f] by simp
  also have "\<dots> = fs @ map (closeField t) (f # vals)"
  proof (cases "vals = []")
    case True
    then show ?thesis by simp
  next
    case False
    then show ?thesis
      using Cons.IH [OF \<open>d \<noteq> q\<close> False, of "fs @ [closeField t f]"] \<open>d \<noteq> q\<close>
      by (simp add: scanLine_delim)
  qed
  finally show ?case .
qed


lemma quoteState_pair: "inQ \<Longrightarrow> quoteState q inQ (q # q # rest) = quoteState q inQ rest"
  by (subst quoteState.simps(2)) simp

lemma quoteState_toggle:
  "\<not> (inQ \<and> rest \<noteq> [] \<and> hd rest = q) \<Longrightarrow> quoteState q inQ (q # rest) = quoteState q (\<not> inQ) rest"
  by (subst quoteState.simps(2)) (auto split: list.splits)

lemma quoteState_char: "c \<noteq> q \<Longrightarrow> quoteState q inQ (c # rest) = quoteState q inQ rest"
  by (subst quoteState.simps(2)) simp


lemma length_filter_upt_Suc:
  "length (filter P [0 ..< Suc n]) = (if P 0 then 1 else 0) + length (filter (\<lambda>j. P (Suc j)) [0 ..< n])"
proof -
  have "[0 ..< Suc n] = 0 # map Suc [0 ..< n]"
    by (simp add: upt_conv_Cons map_Suc_upt del: upt_Suc)
  then show ?thesis by (simp add: filter_map comp_def del: upt_Suc)
qed

lemma length_scanLine:
  "d \<noteq> q \<Longrightarrow>
   length (scanLine d q t fs cur inQ xs) =
     Suc (length fs + length (filter (\<lambda>i. xs ! i = d \<and> \<not> quoteState q inQ (take i xs)) [0 ..< length xs]))"
proof (induction d q t fs cur inQ xs rule: scanLine.induct)
  case (1 d q trimF fs currentField inQuotes)
  then show ?case by simp
next
  case (2 d q trimF fs currentField inQuotes c rest)
  let ?P = "\<lambda>b ys i. ys ! i = d \<and> \<not> quoteState q b (take i ys)"
  show ?case
  proof (cases rule: scan_cases [where c = c and q = q and inQ = inQuotes and rest = rest and d = d])
    case (pair rest')
    have "length (filter (?P inQuotes (q # q # rest')) [0 ..< Suc (Suc (length rest'))])
        = length (filter (?P inQuotes rest') [0 ..< length rest'])"
      using \<open>d \<noteq> q\<close> pair(2)
      by (simp add: length_filter_upt_Suc quoteState_pair del: upt_Suc)
    then show ?thesis
      using "2.IH"(2) [of q rest'] pair "2.prems" by (simp add: scanLine_pair del: upt_Suc)
  next
    case toggle
    have "\<And>j. \<not> (inQuotes \<and> take j rest \<noteq> [] \<and> hd (take j rest) = q)"
      using toggle(2) by (auto simp: hd_take)
    then have "\<And>j. quoteState q inQuotes (q # take j rest) = quoteState q (\<not> inQuotes) (take j rest)"
      by (rule quoteState_toggle)
    then have "length (filter (?P inQuotes (q # rest)) [0 ..< Suc (length rest)])
        = length (filter (?P (\<not> inQuotes) rest) [0 ..< length rest])"
      using \<open>d \<noteq> q\<close> by (simp add: length_filter_upt_Suc del: upt_Suc)
    moreover have "length (scanLine d q trimF fs currentField (\<not> inQuotes) rest) =
        Suc (length fs + length (filter (?P (\<not> inQuotes) rest) [0 ..< length rest]))"
      using "2.IH"(1,3) toggle "2.prems" by (cases rest) auto
    ultimately show ?thesis
      using toggle by (simp add: scanLine_toggle del: upt_Suc)
  next
    case delim
    have "length (filter (?P inQuotes (c # rest)) [0 ..< Suc (length rest)])
        = Suc (length (filter (?P inQuotes rest) [0 ..< length rest]))"
      using delim by (simp add: length_filter_upt_Suc quoteState_char del: upt_Suc)
    then show ?thesis
      using "2.IH"(4) delim "2.prems" by (simp add: scanLine_delim del: upt_Suc)
  next
    case char
    have "length (filter (?P inQuotes (c # rest)) [0 ..< Suc (length rest)])
        = length (filter (?P inQuotes rest) [0 ..< length rest])"
      using char by (auto simp: length_filter_upt_Suc quoteState_char simp del: upt_Suc)
    then show ?thesis
      using "2.IH"(5) char "2.prems" by (simp add: scanLine_char del: upt_Suc)
  qed
qed

lemma trimStart_cases: "trimStart s = [] \<or> \<not> isWhiteSpace (hd (trimStart s))"
  unfolding trimStart_def using hd_dropWhile [of isWhiteSpace s] by blast

lemma trimEnd_Cons:
  "trimEnd (c # r) = (if trimEnd r = [] \<and> isWhiteSpace c then [] else c # trimEnd r)"
  by (auto simp: trimEnd_def dropWhile_append dropWhile_eq_Nil_conv)

lemma trimEnd_cases: "trimEnd s = [] \<or> \<not> isWhiteSpace (last (trimEnd s))"
proof -
  have "dropWhile isWhiteSpace (rev s) = [] \<or> \<not> isWhiteSpace (hd (dropWhile isWhiteSpace (rev s)))"
    using hd_dropWhile [of isWhiteSpace "rev s"] by blast
  then show ?thesis by (auto simp: trimEnd_def last_rev)
qed

lemma hd_trimEnd: "s \<noteq> [] \<Longrightarrow> \<not> isWhiteSpace (hd s) \<Longrightarrow> trimEnd s \<noteq> [] \<and> hd (trimEnd s) = hd s"
  by (cases s) (simp_all add: trimEnd_Cons)

lemma trim_cases:
  "trim s = [] \<or> (\<not> isWhiteSpace (hd (trim s)) \<and> \<not> isWhiteSpace (last (trim s)))"
proof (cases "trimStart s = []")
  case True
  then show ?thesis by (simp add: trim_def trimEnd_def)
next
  case False
  then have h: "\<not> isWhiteSpace (hd (trimStart s))" using trimStart_cases [of s] by simp
  have "trimEnd (trimStart s) \<noteq> []" "hd (trimEnd (trimStart s)) = hd (trimStart s)"
    using hd_trimEnd [OF False h] by simp_all
  then show ?thesis
    using h trimEnd_cases [of "trimStart s"] by (simp add: trim_def)
qed

lemma trimStart_id: "s = [] \<or> \<not> isWhiteSpace (hd s) \<Longrightarrow> trimStart s = s"
  by (cases s) (auto simp: trimStart_def)

lemma trimEnd_id: "s = [] \<or> \<not> isWhiteSpace (last s) \<Longrightarrow> trimEnd s = s"
proof -
  assume a: "s = [] \<or> \<not> isWhiteSpace (last s)"
  have "rev s = [] \<or> \<not> isWhiteSpace (hd (rev s))" using a by (auto simp: hd_rev)
  then have "dropWhile isWhiteSpace (rev s) = rev s" by (cases "rev s") auto
  then show ?thesis by (simp add: trimEnd_def)
qed

lemma scanLine_first:
  "\<exists>more. scanLine d q False [] cur inQ xs \<noteq> [] \<and> hd (scanLine d q False [] cur inQ xs) = cur @ more"
proof (induction d q False "[] :: string list" cur inQ xs rule: scanLine.induct)
  case (1 d q currentField inQuotes)
  then show ?case by (simp add: closeField_def)
next
  case (2 d q currentField inQuotes c rest)
  show ?case
  proof (cases rule: scan_cases [where c = c and q = q and inQ = inQuotes and rest = rest and d = d])
    case (pair rest')
    then show ?thesis using "2.hyps"(2) [of q rest'] by (auto simp: scanLine_pair)
  next
    case toggle
    then show ?thesis using "2.hyps"(1,3) by (cases rest) (auto simp: scanLine_toggle)
  next
    case delim
    then show ?thesis
      using scanLine_prefix [of d q False "[closeField False currentField]" "[]" "[]" inQuotes rest]
      by (simp add: scanLine_delim closeField_def)
  next
    case char
    then show ?thesis using "2.hyps"(5) by (auto simp: scanLine_char)
  qed
qed

lemma first_field_no_leading:
  assumes "line = [] \<or> (hd line \<noteq> q \<and> \<not> isWhiteSpace (hd line))"
  shows "trimStart (hd (parseCSVLine line d q False)) = hd (parseCSVLine line d q False)"
proof (cases line)
  case Nil
  then show ?thesis by (simp add: parseCSVLine_def trimStart_def)
next
  case (Cons c rest)
  then have c: "c \<noteq> q" "\<not> isWhiteSpace c" using assms by auto
  show ?thesis
  proof (cases "c = d")
    case True
    have "scanLine d q False [] [] False (d # rest) = [[]] @ scanLine d q False [] [] False rest"
      using c True scanLine_prefix [of d q False "[[]]" "[]" "[]" False rest]
      by (simp add: scanLine_delim)
    then show ?thesis using Cons True by (simp add: parseCSVLine_def trimStart_def)
  next
    case False
    obtain more where "hd (scanLine d q False [] [c] False rest) = [c] @ more"
      using scanLine_first [of d q "[c]" False rest] by blast
    then show ?thesis
      using Cons c False by (simp add: parseCSVLine_def scanLine_char trimStart_id)
  qed
qed

lemma scanLine_last:
  "xs \<noteq> [] \<Longrightarrow> last xs \<noteq> q \<Longrightarrow>
   last (scanLine d q False fs cur inQ xs) = [] \<or> last (last (scanLine d q False fs cur inQ xs)) = last xs"
proof (induction d q False fs cur inQ xs rule: scanLine.induct)
  case (1 d q fs currentField inQuotes)
  then show ?case by simp
next
  case (2 d q fs currentField inQuotes c rest)
  show ?case
  proof (cases rule: scan_cases [where c = c and q = q and inQ = inQuotes and rest = rest and d = d])
    case (pair rest')
    then have "rest' \<noteq> []" "last rest' \<noteq> q" using "2.prems" by (auto split: if_splits)
    then show ?thesis using "2.hyps"(2) [of q rest'] pair by (simp add: scanLine_pair)
  next
    case toggle
    then have "rest \<noteq> []" "last rest \<noteq> q" using "2.prems" by (auto split: if_splits)
    then show ?thesis using "2.hyps"(3) toggle by (cases rest) (auto simp: scanLine_toggle)
  next
    case delim
    then show ?thesis
      using "2.hyps"(4) "2.prems" by (cases "rest = []") (simp_all add: scanLine_delim)
  next
    case char
    then show ?thesis
      using "2.hyps"(5) "2.prems" by (cases "rest = []") (simp_all add: scanLine_char closeField_def)
  qed
qed

lemma last_field_no_trailing:
  assumes "line = [] \<or> (last line \<noteq> q \<and> \<not> isWhiteSpace (last line))"
  shows "trimEnd (last (parseCSVLine line d q False)) = last (parseCSVLine line d q False)"
proof (cases "line = []")
  case True
  then show ?thesis by (simp add: parseCSVLine_def trimEnd_def)
next
  case False
  then have "last (parseCSVLine line d q False) = [] \<or> last (last (parseCSVLine line d q False)) = last line"
    using assms scanLine_last [of line q d "[]" "[]" False] by (simp add: parseCSVLine_def)
  then show ?thesis using assms False by (auto intro: trimEnd_id)
qed

subsection \<open>Round trip through a built line\<close>

lemma closeField_map_id: "\<not> trimF \<or> (\<forall>v \<in> set vals. trim v = v) \<Longrightarrow> map (closeField trimF) vals = vals"
  by (auto simp: closeField_def map_idI)

text \<open>
  C2, as the code has it. For every sequence of fields that is not empty and every
  delimiter and quote character that differ, tokenizing the line built from the quoted
  fields (quote characters inside a field doubled, fields joined with the delimiter)
  with the same delimiter and quote character gives the fields back, each of them trimmed
  when \<^verbatim>\<open>trimFields\<close> is set. So it gives the original fields back exactly when
  \<^verbatim>\<open>trimFields\<close> is off or no field has whitespace at its ends.
\<close>

theorem parseCSVLine_round_trip:
  assumes "d \<noteq> q" and "vals \<noteq> []"
  shows "parseCSVLine (buildLine d q vals) d q trimF = map (closeField trimF) vals
    \<and> (\<not> trimF \<or> (\<forall>v \<in> set vals. trim v = v) \<longrightarrow> parseCSVLine (buildLine d q vals) d q trimF = vals)"
proof -
  have "parseCSVLine (buildLine d q vals) d q trimF = map (closeField trimF) vals"
    using scanLine_buildLine [OF assms, of trimF "[]"] by (simp add: parseCSVLine_def)
  then show ?thesis using closeField_map_id [of trimF vals] by auto
qed

theorem parseCSVLine_round_trip_witness:
  "parseCSVLine (buildLine CHR '','' CHR 0x22 [''a,b'', [CHR ''x'', CHR 0x22, CHR ''y''], '''']) CHR '','' CHR 0x22 False
     = [''a,b'', [CHR ''x'', CHR 0x22, CHR ''y''], '''']"
proof -
  have "CHR '','' \<noteq> CHR 0x22" by simp
  moreover have "[''a,b'', [CHR ''x'', CHR 0x22, CHR ''y''], ''''] \<noteq> []" by simp
  ultimately show ?thesis
    using parseCSVLine_round_trip [of "CHR '',''" "CHR 0x22" "[''a,b'', [CHR ''x'', CHR 0x22, CHR ''y''], '''']" False]
    by (simp add: closeField_def)
qed

text \<open>
  C2 as stated fails in three ways: the empty sequence of fields builds the empty line,
  which tokenizes to one empty field; with \<^verbatim>\<open>trimFields\<close> set the field \<open>'' a ''\<close> comes
  back as \<open>''a''\<close>; and when the delimiter is also the quote character the fields
  \<open>''a''\<close> and \<open>''b''\<close> come back as the single field \<open>''a,b''\<close>.
\<close>

theorem parseCSVLine_round_trip_counterexample:
  "parseCSVLine (buildLine CHR '','' CHR 0x22 []) CHR '','' CHR 0x22 False = ['''']
   \<and> parseCSVLine (buildLine CHR '','' CHR 0x22 ['' a '']) CHR '','' CHR 0x22 True = [''a'']
   \<and> parseCSVLine (buildLine CHR '','' CHR '','' [''a'', ''b'']) CHR '','' CHR '','' False = [''a,b'']"
  by code_simp

subsection \<open>The last field\<close>

lemma length_scanLine_same:
  "d = q \<Longrightarrow> length (scanLine d q t fs cur inQ xs) = Suc (length fs)"
proof (induction d q t fs cur inQ xs rule: scanLine.induct)
  case (1 d q trimF fs currentField inQuotes)
  then show ?case by simp
next
  case (2 d q trimF fs currentField inQuotes c rest)
  show ?case
  proof (cases rule: scan_cases [where c = c and q = q and inQ = inQuotes and rest = rest and d = d])
    case (pair rest')
    then show ?thesis using "2.IH"(2) [of q rest'] "2.prems" by (simp add: scanLine_pair)
  next
    case toggle
    then show ?thesis using "2.IH"(1,3) "2.prems" by (cases rest) (auto simp: scanLine_toggle)
  next
    case delim
    then show ?thesis using "2.prems" by simp
  next
    case char
    then show ?thesis using "2.IH"(5) "2.prems" by (simp add: scanLine_char)
  qed
qed

lemma parseCSVLine_nonempty: "parseCSVLine line d q t \<noteq> []"
proof -
  have "length (parseCSVLine line d q t) \<noteq> 0"
    using length_scanLine [of d q t "[]" "[]" False line]
      length_scanLine_same [of d q t "[]" "[]" False line]
    by (cases "d = q") (simp_all add: parseCSVLine_def)
  then show ?thesis by simp
qed




subsection \<open>Trimming a quoted field\<close>

text \<open>
  C7. With \<^verbatim>\<open>trimFields\<close> set, the fields are those of the same line tokenized without
  it, each trimmed as a whole after the quotes are gone. So a field written between
  quotes loses the whitespace at its ends although it was enclosed in the quotes: a quote
  character, a space, \<open>a\<close>, a space and a quote character tokenize to \<open>''a''\<close>, and to
  \<open>'' a ''\<close> only when \<^verbatim>\<open>trimFields\<close> is off.
\<close>

theorem parseCSVLine_trims_inside_quotes:
  "parseCSVLine line d q True = map trim (parseCSVLine line d q False)
   \<and> (q \<notin> set inner \<longrightarrow>
        parseCSVLine (q # inner @ [q]) d q True = [trim inner]
        \<and> parseCSVLine (q # inner @ [q]) d q False = [inner])
   \<and> (q \<noteq> CHR '' '' \<and> q \<noteq> CHR ''a'' \<longrightarrow> parseCSVLine (q # '' a '' @ [q]) d q True = [''a''])"
proof -
  have g: "parseCSVLine line d q True = map trim (parseCSVLine line d q False)"
    using scanLine_trim [of d q "[]" "[]" False line] by (simp add: parseCSVLine_def)
  have t: "trim '' a '' = ''a''" by code_simp
  have e: "q \<noteq> CHR '' '' \<and> q \<noteq> CHR ''a'' \<Longrightarrow> parseCSVLine (q # '' a '' @ [q]) d q True = [''a'']"
    using parseCSVLine_quoted [of q "'' a ''" d True] t by (simp add: closeField_def)
  show ?thesis
    using g e parseCSVLine_quoted [of q inner d] by (simp add: closeField_def)
qed

theorem parseCSVLine_trims_inside_quotes_witness:
  "parseCSVLine [CHR 0x22, CHR '' '', CHR ''a'', CHR '' '', CHR 0x22] CHR '','' CHR 0x22 True = [''a'']
   \<and> parseCSVLine [CHR 0x22, CHR '' '', CHR ''a'', CHR '' '', CHR 0x22] CHR '','' CHR 0x22 False = ['' a '']"
proof -
  have t: "trim '' a '' = ''a''" by code_simp
  have ni: "CHR 0x22 \<notin> set '' a ''" by simp
  show ?thesis
    using parseCSVLine_trims_inside_quotes [of "''x''" "CHR '',''" "CHR 0x22" "'' a ''"] t ni
    by simp
qed

section \<open>The document parser\<close>

subsection \<open>What parseCSV returns\<close>

lemma splice_pad: "spliceRow n (padRow n row) = fitRow n row"
  by (auto simp: spliceRow_def padRow_def fitRow_def)

lemma fitRow_same: "length row = n \<Longrightarrow> fitRow n row = row"
  by (simp add: fitRow_def)


lemma hd_fitRow: "row \<noteq> [] \<Longrightarrow> 0 < n \<Longrightarrow> hd (fitRow n row) = hd row"
  by (cases row; cases n) (simp_all add: fitRow_def)

lemma parseRows_eq:
  "parseRows opts hdrs i ls (rs, errs) =
     (rs @ map (\<lambda>nl. fitRow (length hdrs) (tokenizedRow opts (snd nl)))
             (filter (keptLine opts) (enumerate (i + skipHeaderLines opts + 1) ls)),
      errs @ map (\<lambda>nl. columnError (fst nl) (length hdrs) (length (tokenizedRow opts (snd nl))))
             (filter (\<lambda>nl. length (tokenizedRow opts (snd nl)) \<noteq> length hdrs)
                (filter (keptLine opts) (enumerate (i + skipHeaderLines opts + 1) ls))))"
proof (induction ls arbitrary: i rs errs)
  case Nil
  then show ?case by simp
next
  case (Cons raw rest)
  show ?case
    by (simp add: Cons.IH Let_def keptLine_def tokenizedRow_def splice_pad fitRow_same)
qed

lemma drop_enumerate: "drop m (enumerate n xs) = enumerate (n + m) (drop m xs)"
proof (induction xs arbitrary: n m)
  case Nil
  then show ?case by simp
next
  case (Cons x xs)
  then show ?case by (cases m) simp_all
qed

lemma split_nonempty: "split sep s \<noteq> []"
  by (induction s) (auto split: list.splits)

lemma parseCSV_no_lines:
  "length (split CHR 0x0A csvText) \<le> skipHeaderLines opts \<Longrightarrow> parseCSV csvText opts = noDataResult"
  by (simp add: parseCSV_def noDataResult_def Let_def)

lemma keptRows_no_lines:
  "length (split CHR 0x0A csvText) \<le> skipHeaderLines opts \<Longrightarrow> keptRows opts csvText = []"
  by (simp add: keptRows_def numberedLines_def)

lemma parseCSV_lines:
  assumes "skipHeaderLines opts < length (split CHR 0x0A csvText)"
  shows "parseCSV csvText opts =
    \<lparr>headers = parseCSVLine (split CHR 0x0A csvText ! skipHeaderLines opts)
                 (delimiter opts) (quoteChar opts) (trimFields opts),
     rows = map (\<lambda>nl. fitRow
                (length (parseCSVLine (split CHR 0x0A csvText ! skipHeaderLines opts)
                   (delimiter opts) (quoteChar opts) (trimFields opts)))
                (tokenizedRow opts (snd nl)))
              (keptRows opts csvText),
     errors = map (\<lambda>nl. columnError (fst nl)
                (length (parseCSVLine (split CHR 0x0A csvText ! skipHeaderLines opts)
                   (delimiter opts) (quoteChar opts) (trimFields opts)))
                (length (tokenizedRow opts (snd nl))))
              (filter (\<lambda>nl. length (tokenizedRow opts (snd nl)) \<noteq>
                   length (parseCSVLine (split CHR 0x0A csvText ! skipHeaderLines opts)
                     (delimiter opts) (quoteChar opts) (trimFields opts)))
                 (keptRows opts csvText))\<rparr>"
proof -
  define ls where "ls = split CHR 0x0A csvText"
  define k where "k = skipHeaderLines opts"
  have kl: "k < length ls" using assms by (simp add: ls_def k_def)
  have d1: "drop (Suc 0) (drop k ls) = drop (Suc k) ls" by simp
  have kept: "keptRows opts csvText = filter (keptLine opts) (enumerate (1 + k + 1) (drop (Suc k) ls))"
    unfolding keptRows_def numberedLines_def ls_def[symmetric] k_def[symmetric]
    by (simp add: drop_enumerate)
  show ?thesis
    using kl
    unfolding kept
    by (simp add: parseCSV_def Let_def ls_def[symmetric] k_def[symmetric] parseRows_eq d1
          del: drop_Suc_Cons)
qed



subsection \<open>A text with no data lines\<close>

text \<open>
  C5, as the code has it. For every text and options, \<^verbatim>\<open>parseCSV\<close> returns the result
  with no headers, no rows and the one error \<open>No data lines found in CSV\<close> if, and only
  if, no line is left after the first \<^verbatim>\<open>skipHeaderLines\<close> lines of the line-feed split
  are dropped. The split of the empty document is one empty line, so for the empty
  document this is so exactly when \<^verbatim>\<open>skipHeaderLines\<close> is at least 1.
\<close>

theorem parseCSV_no_data_lines:
  "(parseCSV csvText opts = noDataResult \<longleftrightarrow> length (split CHR 0x0A csvText) \<le> skipHeaderLines opts)
   \<and> (parseCSV [] opts = noDataResult \<longleftrightarrow> 1 \<le> skipHeaderLines opts)"
proof -
  have a: "parseCSV t opts = noDataResult \<longleftrightarrow> length (split CHR 0x0A t) \<le> skipHeaderLines opts" for t
  proof (cases "length (split CHR 0x0A t) \<le> skipHeaderLines opts")
    case True
    then show ?thesis by (simp add: parseCSV_no_lines)
  next
    case False
    then have "skipHeaderLines opts < length (split CHR 0x0A t)" by simp
    from parseCSV_lines [OF this] have "headers (parseCSV t opts) \<noteq> []"
      by (simp add: parseCSVLine_nonempty)
    then show ?thesis using False by (auto simp: noDataResult_def)
  qed
  show ?thesis using a [of csvText] a [of "[]"] by simp
qed

theorem parseCSV_no_data_lines_witness:
  "parseCSV ''a\<newline>b'' (defaultOptions\<lparr>skipHeaderLines := 2\<rparr>) =
     \<lparr>headers = [], rows = [], errors = [''No data lines found in CSV'']\<rparr>
   \<and> parseCSV [] (defaultOptions\<lparr>skipHeaderLines := 1\<rparr>) =
     \<lparr>headers = [], rows = [], errors = [''No data lines found in CSV'']\<rparr>"
proof -
  have s: "length (split CHR 0x0A ''a\<newline>b'') = 2" by code_simp
  show ?thesis
    using parseCSV_no_data_lines [of "''a\<newline>b''" "defaultOptions\<lparr>skipHeaderLines := 2\<rparr>"]
      parseCSV_no_data_lines [of "[]" "defaultOptions\<lparr>skipHeaderLines := 1\<rparr>"] s
    by (simp add: noDataResult_def)
qed

text \<open>
  C5 as stated fails for the empty document with the default \<^verbatim>\<open>skipHeaderLines\<close> of 0:
  one line, the empty one, is left, it is read as the header line, and the result has
  one empty header and no error.
\<close>

theorem parseCSV_no_data_lines_counterexample:
  "parseCSV [] defaultOptions = \<lparr>headers = [''''], rows = [], errors = []\<rparr>"
  by code_simp

subsection \<open>Data lines are trimmed, the header line is not\<close>

lemma scanLine_plain:
  "q \<notin> set xs \<Longrightarrow> d \<notin> set xs \<Longrightarrow>
   scanLine d q t fs cur inQ xs = fs @ [closeField t (cur @ xs)]"
proof (induction xs arbitrary: cur)
  case Nil
  then show ?case by simp
next
  case (Cons c xs)
  then have "c \<noteq> q" "c \<noteq> d" by auto
  then show ?case using Cons by (simp add: scanLine_char)
qed

lemma startsWith_single: "startsWith s [c] \<longleftrightarrow> s \<noteq> [] \<and> hd s = c"
  by (cases s) (simp_all add: startsWith_def)

lemma endsWith_single: "endsWith s [c] \<longleftrightarrow> s \<noteq> [] \<and> last s = c"
  by (cases s rule: rev_cases) (simp_all add: endsWith_def startsWith_def)

lemma tokenizedRow_no_leading:
  assumes "\<not> trimFields opts" and "\<not> startsWith (trim raw) [quoteChar opts]"
  shows "\<not> hasLeadingSpace (hd (tokenizedRow opts raw))"
proof -
  have "trim raw = [] \<or> (hd (trim raw) \<noteq> quoteChar opts \<and> \<not> isWhiteSpace (hd (trim raw)))"
    using assms(2) trim_cases [of raw] by (auto simp: startsWith_single)
  from first_field_no_leading [OF this] show ?thesis
    using assms(1) by (simp add: hasLeadingSpace_def tokenizedRow_def)
qed

lemma tokenizedRow_no_trailing:
  assumes "\<not> trimFields opts" and "\<not> endsWith (trim raw) [quoteChar opts]"
  shows "\<not> hasTrailingSpace (last (tokenizedRow opts raw))"
proof -
  have "trim raw = [] \<or> (last (trim raw) \<noteq> quoteChar opts \<and> \<not> isWhiteSpace (last (trim raw)))"
    using assms(2) trim_cases [of raw] by (auto simp: endsWith_single)
  from last_field_no_trailing [OF this] show ?thesis
    using assms(1) by (simp add: hasTrailingSpace_def tokenizedRow_def)
qed

text \<open>
  C10, as the code has it. The header is the tokenization of the first line left after
  the skipped ones as it stands, untrimmed: with \<^verbatim>\<open>trimFields\<close> off, a header line
  without a delimiter and without a quote character is one header, the whole line with
  the whitespace around it (a carriage return before the line feed included). Every row
  is the tokenization of a data line after the line was trimmed, padded or truncated to
  the header count. So, with \<^verbatim>\<open>trimFields\<close> off, the first field of a row has no
  leading whitespace unless the trimmed line begins with the quote character, and the
  last field of a row that has the column count of the header has no trailing whitespace
  unless the trimmed line ends with the quote character.
\<close>

theorem parseCSV_trims_data_lines:
  "(skipHeaderLines opts < length (split CHR 0x0A csvText) \<longrightarrow>
      headers (parseCSV csvText opts) =
        parseCSVLine (split CHR 0x0A csvText ! skipHeaderLines opts)
          (delimiter opts) (quoteChar opts) (trimFields opts)
      \<and> (\<not> trimFields opts
           \<and> quoteChar opts \<notin> set (split CHR 0x0A csvText ! skipHeaderLines opts)
           \<and> delimiter opts \<notin> set (split CHR 0x0A csvText ! skipHeaderLines opts) \<longrightarrow>
         headers (parseCSV csvText opts) = [split CHR 0x0A csvText ! skipHeaderLines opts]))
   \<and> rows (parseCSV csvText opts) =
       map (\<lambda>nl. fitRow (length (headers (parseCSV csvText opts)))
                   (parseCSVLine (trim (snd nl)) (delimiter opts) (quoteChar opts) (trimFields opts)))
         (keptRows opts csvText)
   \<and> (\<not> trimFields opts \<and> nl \<in> set (keptRows opts csvText) \<longrightarrow>
        (\<not> startsWith (trim (snd nl)) [quoteChar opts] \<longrightarrow>
           \<not> hasLeadingSpace
               (hd (fitRow (length (headers (parseCSV csvText opts))) (tokenizedRow opts (snd nl)))))
        \<and> (\<not> endsWith (trim (snd nl)) [quoteChar opts]
            \<and> length (tokenizedRow opts (snd nl)) = length (headers (parseCSV csvText opts)) \<longrightarrow>
           \<not> hasTrailingSpace
               (last (fitRow (length (headers (parseCSV csvText opts))) (tokenizedRow opts (snd nl))))))"
proof (cases "skipHeaderLines opts < length (split CHR 0x0A csvText)")
  case False
  then have le: "length (split CHR 0x0A csvText) \<le> skipHeaderLines opts" by simp
  show ?thesis
    using False by (simp add: parseCSV_no_lines [OF le] keptRows_no_lines [OF le] noDataResult_def)
next
  case True
  let ?first = "split CHR 0x0A csvText ! skipHeaderLines opts"
  let ?H = "parseCSVLine ?first (delimiter opts) (quoteChar opts) (trimFields opts)"
  note P = parseCSV_lines [OF True]
  have h: "headers (parseCSV csvText opts) = ?H" using P by simp
  have r: "rows (parseCSV csvText opts) =
      map (\<lambda>nl. fitRow (length ?H) (tokenizedRow opts (snd nl))) (keptRows opts csvText)"
    using P by simp
  have plain: "\<not> trimFields opts \<Longrightarrow> quoteChar opts \<notin> set ?first \<Longrightarrow> delimiter opts \<notin> set ?first
      \<Longrightarrow> ?H = [?first]"
    by (simp add: parseCSVLine_def scanLine_plain closeField_def)
  have pos: "0 < length ?H" using parseCSVLine_nonempty [of ?first] by simp
  have ne: "tokenizedRow opts (snd nl) \<noteq> []"
    by (simp add: tokenizedRow_def parseCSVLine_nonempty)
  have lead: "\<not> trimFields opts \<Longrightarrow> \<not> startsWith (trim (snd nl)) [quoteChar opts] \<Longrightarrow>
      \<not> hasLeadingSpace (hd (fitRow (length ?H) (tokenizedRow opts (snd nl))))"
    using tokenizedRow_no_leading [of opts "snd nl"] hd_fitRow [OF ne pos] by simp
  have trail: "\<not> trimFields opts \<Longrightarrow> \<not> endsWith (trim (snd nl)) [quoteChar opts] \<Longrightarrow>
      length (tokenizedRow opts (snd nl)) = length ?H \<Longrightarrow>
      \<not> hasTrailingSpace (last (fitRow (length ?H) (tokenizedRow opts (snd nl))))"
    using tokenizedRow_no_trailing [of opts "snd nl"] by (simp add: fitRow_same)
  show ?thesis
    unfolding h r using plain lead trail by (simp add: tokenizedRow_def)
qed

theorem parseCSV_trims_data_lines_witness:
  "headers (parseCSV [CHR ''a'', CHR '' '', CHR 0x0D, CHR 0x0A, CHR ''b'', CHR '' '', CHR 0x0D]
       (defaultOptions\<lparr>trimFields := False\<rparr>))
     = [[CHR ''a'', CHR '' '', CHR 0x0D]]
   \<and> rows (parseCSV [CHR ''a'', CHR '' '', CHR 0x0D, CHR 0x0A, CHR ''b'', CHR '' '', CHR 0x0D]
       (defaultOptions\<lparr>trimFields := False\<rparr>))
     = [[''b'']]
   \<and> \<not> hasLeadingSpace (hd (fitRow 1
         (tokenizedRow (defaultOptions\<lparr>trimFields := False\<rparr>) [CHR ''b'', CHR '' '', CHR 0x0D])))
   \<and> \<not> hasTrailingSpace (last (fitRow 1
         (tokenizedRow (defaultOptions\<lparr>trimFields := False\<rparr>) [CHR ''b'', CHR '' '', CHR 0x0D])))"
proof -
  let ?t = "[CHR ''a'', CHR '' '', CHR 0x0D, CHR 0x0A, CHR ''b'', CHR '' '', CHR 0x0D]"
  let ?h = "[CHR ''a'', CHR '' '', CHR 0x0D]"
  let ?b = "[CHR ''b'', CHR '' '', CHR 0x0D]"
  let ?o = "defaultOptions\<lparr>trimFields := False\<rparr>"
  have s: "split CHR 0x0A ?t = [?h, ?b]" by code_simp
  have o: "skipHeaderLines ?o = 0" "\<not> trimFields ?o" "quoteChar ?o = CHR 0x22" "delimiter ?o = CHR '',''"
    by (simp_all add: defaultOptions_def)
  have k: "keptRows ?o ?t = [(2, ?b)]" by code_simp
  have tr: "trim ?b = ''b''" by code_simp
  have tk: "tokenizedRow ?o ?b = [''b'']" by code_simp
  have tk': "parseCSVLine ''b'' CHR '','' CHR 0x22 False = [''b'']" by code_simp
  note T = parseCSV_trims_data_lines [of ?o ?t "(2, ?b)"]
  have p1: "skipHeaderLines ?o < length (split CHR 0x0A ?t)" by (simp add: s o)
  have p2: "quoteChar ?o \<notin> set (split CHR 0x0A ?t ! skipHeaderLines ?o)" by (simp add: s o)
  have p3: "delimiter ?o \<notin> set (split CHR 0x0A ?t ! skipHeaderLines ?o)" by (simp add: s o)
  have p4: "(2, ?b) \<in> set (keptRows ?o ?t)" by (simp add: k)
  have p5: "\<not> startsWith (trim (snd (2 :: nat, ?b))) [quoteChar ?o]" by (simp add: tr o startsWith_def)
  have p6: "\<not> endsWith (trim (snd (2 :: nat, ?b))) [quoteChar ?o]"
    by (simp add: tr o endsWith_def startsWith_def)
  have "headers (parseCSV ?t ?o) = [split CHR 0x0A ?t ! skipHeaderLines ?o]"
    using T p1 p2 p3 o(2) by blast
  then have 1: "headers (parseCSV ?t ?o) = [?h]" by (simp add: s o)
  have p7: "length (tokenizedRow ?o (snd (2 :: nat, ?b))) = length (headers (parseCSV ?t ?o))"
    by (simp add: 1 tk)
  have "rows (parseCSV ?t ?o) =
      map (\<lambda>nl. fitRow (length (headers (parseCSV ?t ?o)))
                  (parseCSVLine (trim (snd nl)) (delimiter ?o) (quoteChar ?o) (trimFields ?o)))
        (keptRows ?o ?t)"
    using T by blast
  then have 2: "rows (parseCSV ?t ?o) = [[''b'']]"
    by (simp add: 1 k o tr tk' fitRow_def)
  have "\<not> hasLeadingSpace (hd (fitRow (length (headers (parseCSV ?t ?o))) (tokenizedRow ?o (snd (2 :: nat, ?b)))))"
    using T p4 p5 o(2) by blast
  then have 3: "\<not> hasLeadingSpace (hd (fitRow 1 (tokenizedRow ?o ?b)))" by (simp add: 1)
  have "\<not> hasTrailingSpace (last (fitRow (length (headers (parseCSV ?t ?o))) (tokenizedRow ?o (snd (2 :: nat, ?b)))))"
    using T p4 p6 p7 o(2) by blast
  then have 4: "\<not> hasTrailingSpace (last (fitRow 1 (tokenizedRow ?o ?b)))" by (simp add: 1)
  show ?thesis using 1 2 3 4 by blast
qed

text \<open>
  C10 as stated fails in two ways with \<^verbatim>\<open>trimFields\<close> off. The whitespace that a data
  line has inside quotes stays: the line of a quote character, \<open>'' a ''\<close> and a quote
  character gives the row with the one field \<open>'' a ''\<close>. And truncation can make a field
  with trailing whitespace the last one: under one header the line \<open>''a ,b''\<close> gives the
  row with the one field \<open>''a ''\<close>.
\<close>

theorem parseCSV_trims_data_lines_counterexample:
  "rows (parseCSV (''h\<newline>'' @ [CHR 0x22] @ '' a '' @ [CHR 0x22]) (defaultOptions\<lparr>trimFields := False\<rparr>))
     = [['' a '']]
   \<and> rows (parseCSV ''h\<newline>a ,b'' (defaultOptions\<lparr>trimFields := False\<rparr>)) = [[''a '']]"
  by code_simp

section \<open>The field normalizers\<close>

text \<open>
  C9. For every string, \<^verbatim>\<open>formatPhoneNumber\<close> takes the digits of the input; ten digits
  are returned after \<open>+91\<close> and a space, twelve digits that begin with \<open>91\<close> after
  \<open>+\<close>, and in every other case the input comes back as it was.
\<close>

theorem formatPhoneNumber_cases:
  "formatPhoneNumber (Some phone) =
     (if length (filter isDigit phone) = 10 then ''+91 '' @ filter isDigit phone
      else if length (filter isDigit phone) = 12 \<and> startsWith (filter isDigit phone) ''91''
      then ''+'' @ filter isDigit phone
      else phone)
   \<and> formatPhoneNumber (Some ''9876543210'') = ''+91 9876543210''
   \<and> formatPhoneNumber (Some ''919876543210'') = ''+919876543210''
   \<and> formatPhoneNumber (Some ''123'') = ''123''"
proof -
  have g: "formatPhoneNumber (Some p) =
     (if length (filter isDigit p) = 10 then ''+91 '' @ filter isDigit p
      else if length (filter isDigit p) = 12 \<and> startsWith (filter isDigit p) ''91''
      then ''+'' @ filter isDigit p
      else p)" for p
    by (cases "p = []") (simp_all add: formatPhoneNumber_def Let_def)
  have "formatPhoneNumber (Some ''9876543210'') = ''+91 9876543210''" by code_simp
  moreover have "formatPhoneNumber (Some ''919876543210'') = ''+919876543210''" by code_simp
  moreover have "formatPhoneNumber (Some ''123'') = ''123''" by code_simp
  ultimately show ?thesis using g [of phone] by blast
qed

theorem formatPhoneNumber_cases_witness:
  "formatPhoneNumber (Some ''(98765) 43-210'') = ''+91 9876543210''
   \<and> formatPhoneNumber (Some ''+91 98765 43210'') = ''+919876543210''
   \<and> formatPhoneNumber (Some ''12 9876543210'') = ''12 9876543210''"
proof -
  have d1: "filter isDigit ''(98765) 43-210'' = ''9876543210''" by code_simp
  have d2: "filter isDigit ''+91 98765 43210'' = ''919876543210''" by code_simp
  have d3: "filter isDigit ''12 9876543210'' = ''129876543210''" by code_simp
  show ?thesis
    using formatPhoneNumber_cases [of "''(98765) 43-210''"]
      formatPhoneNumber_cases [of "''+91 98765 43210''"]
      formatPhoneNumber_cases [of "''12 9876543210''"]
    unfolding d1 d2 d3 by (simp add: startsWith_def)
qed

section \<open>The loader\<close>

subsection \<open>Setting a loading state\<close>

lemma getLoadingState_set:
  "getLoadingState (setLoadingState m dataSource state) dataSource
     = spread (getLoadingState m dataSource) state"
  by (simp add: setLoadingState_def getLoadingState_def Let_def split: option.splits)

lemma dataCache_set: "dataCache (setLoadingState m dataSource state) = dataCache m"
  by (simp add: setLoadingState_def Let_def split: option.splits)




subsection \<open>Every attempt fails\<close>


lemma attempts_none:
  "retries < attempt \<Longrightarrow>
   attempts dataSource url parser skip cacheKey retries net now attempt acc m =
     (\<lparr>data = EmptyObject, resultErrors = [''Failed to load '' @ dataSource], warnings = []\<rparr>, m)"
  by (subst attempts.simps) simp



subsection \<open>A cache hit\<close>



subsection \<open>The edges of the claims about the loader\<close>

text \<open>
  With \<^verbatim>\<open>retries\<close> 0 there is no attempt and no failure to report: the loop body does
  not run, the return after the loop is reached, and the state of the source stays
  loading. The theorem about failing attempts is about one attempt or more.
\<close>

lemma loadCSVData_no_attempts:
  assumes "dataCache m (cacheKeyOf options dataSource) = None" and "retriesOf options = 0"
  shows "fst (loadCSVData m dataSource url parser options net now) =
      \<lparr>data = EmptyObject, resultErrors = [''Failed to load '' @ dataSource], warnings = []\<rparr>
    \<and> getLoadingState (snd (loadCSVData m dataSource url parser options net now)) dataSource =
      \<lparr>isLoading = True, isLoaded = False, error = None, lastUpdated = None\<rparr>"
  using assms
  by (simp add: loadCSVData_def Let_def attempts_none getLoadingState_set spread_def)

text \<open>
  A call that returns data, from the cache or from a request, leaves that data in the
  cache under the cache key, so the next call with the same key returns it again.
\<close>

lemma attempts_cached:
  "data (fst (attempts dataSource url parser skip cacheKey retries net now attempt acc m)) = Data d \<Longrightarrow>
   dataCache (snd (attempts dataSource url parser skip cacheKey retries net now attempt acc m)) cacheKey = Some d"
proof (induction dataSource url parser skip cacheKey retries net now attempt acc m rule: attempts.induct)
  case (1 dataSource url parser skip cacheKey retries net now attempt acc m)
  show ?case
  proof (cases "attempt \<le> retries")
    case False
    then show ?thesis using "1.prems" by (subst (asm) attempts.simps) simp
  next
    case le: True
    obtain acc' res where t: "tryAttempt parser skip (net attempt) acc = (acc', res)"
      by (cases "tryAttempt parser skip (net attempt) acc")
    show ?thesis
    proof (cases res)
      case (Inr d')
      then show ?thesis
        using "1.prems" le t
        by (subst attempts.simps, subst (asm) attempts.simps) (simp add: Let_def dataCache_set)
    next
      case (Inl e)
      show ?thesis
      proof (cases "attempt = retries")
        case True
        then show ?thesis
          using "1.prems" le t Inl by (subst (asm) attempts.simps) (simp add: Let_def)
      next
        case False
        let ?m1 = "m\<lparr>effects := effects m @ [Fetched url]\<rparr>"
        let ?m2 = "?m1\<lparr>effects := effects ?m1 @ [Waited (1000 * attempt)]\<rparr>"
        have step: "attempts dataSource url parser skip cacheKey retries net now attempt acc m
            = attempts dataSource url parser skip cacheKey retries net now (attempt + 1) acc' ?m2"
          using False le t Inl by (subst attempts.simps) (simp add: Let_def)
        have t': "(acc', Inl e) = tryAttempt parser skip (net attempt) acc" using t Inl by simp
        show ?thesis
          using "1.IH" [OF le refl t' refl refl False] "1.prems" unfolding step by simp
      qed
    qed
  qed
qed

lemma loadCSVData_again:
  assumes "data (fst (loadCSVData m dataSource url parser options net now)) = Data d"
  shows "data (fst (loadCSVData (snd (loadCSVData m dataSource url parser options net now))
            dataSource url2 parser2 options net2 now2)) = Data d"
proof -
  have "dataCache (snd (loadCSVData m dataSource url parser options net now)) (cacheKeyOf options dataSource) = Some d"
  proof (cases "dataCache m (cacheKeyOf options dataSource)")
    case None
    then show ?thesis
      using assms attempts_cached [of dataSource url parser "skipOf options" "cacheKeyOf options dataSource"]
      by (simp add: loadCSVData_def Let_def)
  next
    case (Some v)
    then show ?thesis using assms by (simp add: loadCSVData_def Let_def dataCache_set)
  qed
  then show ?thesis by (simp add: loadCSVData_def Let_def)
qed

end
